theory Spec2Isabelle
  imports Complex_Main "HOL-Library.Multiset" "HOL-Library.List_Lexorder"
    "HOL-Library.Product_Lexorder" "HOL-Library.AList"
begin

section \<open>Errors and scores\<close>

text \<open>
  Every exception the modelled Python code can raise is a value of \<open>error\<close>; a function
  that can raise returns \<open>error + 'a\<close> with \<open>Inl\<close> for the exception, and \<open>and_then\<close>
  passes the exception of a failed step on. \<open>ValueError\<close> and \<open>CardParseError\<close> carry the
  message of the raise, written in ASCII (accents dropped) and with the offending text appended
  where the source formats it into the message.

  A hand score is the Python tuple \<open>(category, (tiebreak, ...))\<close>. Python compares tuples
  lexicographically, a proper prefix being smaller; this is the order that
  \<open>HOL-Library.Product_Lexorder\<close> gives to pairs and \<open>HOL-Library.List_Lexorder\<close> gives to
  lists, so \<open>s < t\<close> on \<open>score\<close> is Python's \<open>s < t\<close>.
\<close>

datatype error =
    AssertionError
  | IndexError
  | ValueError string
  | ZeroDivisionError
  | OverflowError
  | CardParseError string

definition and_then :: "error + 'a \<Rightarrow> ('a \<Rightarrow> error + 'b) \<Rightarrow> error + 'b" where
  "and_then m f = (case m of Inl e \<Rightarrow> Inl e | Inr x \<Rightarrow> f x)"

type_synonym score = "int \<times> int list"

section \<open>evaluator.py\<close>

definition rank :: "int \<Rightarrow> int" where
  "rank c = c mod 13"

definition suit :: "int \<Rightarrow> int" where
  "suit c = c div 13"

text \<open>
  The sliding-window loop of \<open>_is_straight\<close>: \<open>is\<close> is the list of start indices still to
  visit. Every index visited is at most \<open>len(ranks) - 4\<close>, so the window holds at least four
  ranks; a window of four is rejected by the length test.
\<close>

fun straight_window :: "int list \<Rightarrow> nat list \<Rightarrow> int option" where
  "straight_window ranks [] = None"
| "straight_window ranks (i # is) =
    (let window = take 5 (drop i ranks) in
     if hd window - last window = 4 \<and> length window = 5
        \<and> list_all (\<lambda>j. window ! j - 1 = window ! (j + 1)) [0..<4]
     then Some (hd window)
     else straight_window ranks is)"

definition is_straight :: "int list \<Rightarrow> bool \<times> int" where
  "is_straight ranks =
    (case straight_window ranks [0..<nat (int (length ranks) - 4 + 1)] of
       Some high \<Rightarrow> (True, high)
     | None \<Rightarrow>
        if {12, 3, 2, 1, 0} \<subseteq> set ranks then (True, 3) else (False, -1))"

text \<open>
  The dictionary \<open>counts\<close> of \<open>_evaluate5\<close> is an association list in insertion order
  (\<open>AList.update\<close> overwrites in place or appends), which is the order Python's
  \<open>counts.items()\<close> yields.
\<close>

definition rank_counts :: "int list \<Rightarrow> (int \<times> int) list" where
  "rank_counts rs =
     fold (\<lambda>r counts.
            AList.update r ((case map_of counts r of None \<Rightarrow> 0 | Some c \<Rightarrow> c) + 1) counts)
          rs []"

definition rank_groups :: "(int \<times> int) list \<Rightarrow> (int \<times> int) list" where
  "rank_groups counts = rev (sort (map (\<lambda>(r, cnt). (cnt, r)) counts))"

definition evaluate5 :: "int list \<Rightarrow> error + score" where
  "evaluate5 cards5 =
    (let rs = rev (sort (map rank cards5));
         ss = map suit cards5;
         counts = rank_counts rs;
         groups = rank_groups counts;
         is_flush = (card (set ss) = 1);
         uniq_desc = rev (sort (remdups rs));
         (is_str, straight_high) = is_straight uniq_desc
     in
     if is_str \<and> is_flush then Inr (8, [straight_high])
     else if groups = [] then Inl IndexError
     else if fst (groups ! 0) = 4 then
       (let quad_rank = snd (groups ! 0);
            others = filter (\<lambda>r. r \<noteq> quad_rank) rs
        in if others = [] then Inl (ValueError ''max() arg is an empty sequence'')
           else Inr (7, [quad_rank, Max (set others)]))
     else if fst (groups ! 0) = 3 \<and> length groups \<ge> 2 \<and> fst (groups ! 1) \<ge> 2 then
       (let trips = snd (groups ! 0);
            pair = Max (set (map snd (filter (\<lambda>(cnt, r). cnt \<ge> 2) (drop 1 groups))))
        in Inr (6, [trips, pair]))
     else if is_flush then Inr (5, rs)
     else if is_str then Inr (4, [straight_high])
     else if fst (groups ! 0) = 3 then
       (let trips = snd (groups ! 0);
            kickers = take 2 (rev (sort (filter (\<lambda>r. r \<noteq> trips) rs)))
        in Inr (3, trips # kickers))
     else if fst (groups ! 0) = 2 \<and> length groups \<ge> 2 \<and> fst (groups ! 1) = 2 then
       (let pairs = rev (sort (map snd (filter (\<lambda>(cnt, r). cnt = 2) groups)));
            others = filter (\<lambda>r. r \<notin> set pairs) rs
        in if others = [] then Inl (ValueError ''max() arg is an empty sequence'')
           else Inr (2, [pairs ! 0, pairs ! 1, Max (set others)]))
     else if fst (groups ! 0) = 2 then
       (let pair = snd (groups ! 0);
            kickers = take 3 (filter (\<lambda>r. r \<noteq> pair) rs)
        in Inr (1, pair # kickers))
     else Inr (0, rs))"

text \<open>
  \<open>itertools.combinations(xs, k)\<close>: the \<open>k\<close>-element subsequences of \<open>xs\<close>, by position, in
  lexicographic order of the positions.
\<close>

fun combinations :: "'a list \<Rightarrow> nat \<Rightarrow> 'a list list" where
  "combinations xs 0 = [[]]"
| "combinations [] (Suc k) = []"
| "combinations (x # xs) (Suc k) =
     map ((#) x) (combinations xs k) @ combinations xs (Suc k)"

text \<open>The loop of \<open>evaluate7\<close> over the remaining combinations, \<open>best\<close> being the running maximum.\<close>

fun best_over :: "score \<Rightarrow> int list list \<Rightarrow> error + score" where
  "best_over best [] = Inr best"
| "best_over best (comb # rest) =
     (case evaluate5 comb of
        Inl e \<Rightarrow> Inl e
      | Inr score \<Rightarrow> best_over (if score > best then score else best) rest)"

definition evaluate7 :: "int list \<Rightarrow> error + score" where
  "evaluate7 cards7 =
     (if length cards7 \<noteq> 7 then Inl AssertionError
      else best_over (-1, []) (combinations cards7 5))"

text \<open>
  The specification's reading of the 7-card score, for comparison with \<open>evaluate7\<close>: the
  five-card subsets of a hand, and the 5-card score of such a subset (the score of its cards
  listed in increasing order; any other listing of the subset scores the same).
\<close>

definition five_card_subsets :: "int list \<Rightarrow> int set set" where
  "five_card_subsets cards = {S \<in> Pow (set cards). card S = 5}"

definition score5 :: "int set \<Rightarrow> error + score" where
  "score5 S = evaluate5 (sorted_list_of_set S)"


section \<open>ranges.py\<close>

text \<open>
  Python strings are modelled as \<open>string\<close> over the ASCII alphabet. \<open>upper\<close> and \<open>lower\<close> are
  \<open>str.upper\<close> and \<open>str.lower\<close> on one character, \<open>is_space\<close> is the class \<open>\s\<close> of the
  regular expressions and of \<open>str.strip\<close> (code points 9-13 and 28-32).
\<close>

definition upper :: "char \<Rightarrow> char" where
  "upper c =
     (case map_of (zip ''abcdefghijklmnopqrstuvwxyz'' ''ABCDEFGHIJKLMNOPQRSTUVWXYZ'') c of
        Some u \<Rightarrow> u | None \<Rightarrow> c)"

definition lower :: "char \<Rightarrow> char" where
  "lower c =
     (case map_of (zip ''ABCDEFGHIJKLMNOPQRSTUVWXYZ'' ''abcdefghijklmnopqrstuvwxyz'') c of
        Some l \<Rightarrow> l | None \<Rightarrow> c)"

definition is_space :: "char \<Rightarrow> bool" where
  "is_space c = ((of_char c :: nat) \<in> {9, 10, 11, 12, 13, 28, 29, 30, 31, 32})"

definition strip :: "string \<Rightarrow> string" where
  "strip s = rev (dropWhile is_space (rev (dropWhile is_space s)))"

definition RANKS :: string where
  "RANKS = ''23456789TJQKA''"

fun index_from :: "char \<Rightarrow> string \<Rightarrow> int \<Rightarrow> int option" where
  "index_from c [] i = None"
| "index_from c (x # xs) i = (if x = c then Some i else index_from c xs (i + 1))"

definition rank_idx :: "char \<Rightarrow> error + int" where
  "rank_idx rc =
     (case index_from (upper rc) RANKS 0 of
        None \<Rightarrow> Inl (ValueError ''substring not found'')
      | Some i \<Rightarrow> Inr i)"

definition card_of :: "int \<Rightarrow> int \<Rightarrow> int" where
  "card_of r s = s * 13 + r"

text \<open>\<open>tuple(sorted((c1, c2)))\<close>: the canonical \<open>(min, max)\<close> pair of a combo.\<close>

definition sorted_pair :: "int \<Rightarrow> int \<Rightarrow> int \<times> int" where
  "sorted_pair c1 c2 = (min c1 c2, max c1 c2)"

text \<open>
  The combo sets are Python sets built by \<open>add\<close> and \<open>|=\<close> in loops; the model builds the set
  of the values the loops add.
\<close>

definition all_pair_combos :: "int \<Rightarrow> (int \<times> int) set" where
  "all_pair_combos r =
     (let cards = map (\<lambda>s. card_of r s) [0..3] in
      set (concat (map (\<lambda>i. map (\<lambda>j. sorted_pair (cards ! i) (cards ! j)) [i + 1..<4]) [0..<4])))"

definition all_suited_combos :: "int \<Rightarrow> int \<Rightarrow> (int \<times> int) set" where
  "all_suited_combos r_hi r_lo =
     set (map (\<lambda>s. sorted_pair (card_of r_hi s) (card_of r_lo s)) [0..3])"

definition all_offsuit_combos :: "int \<Rightarrow> int \<Rightarrow> (int \<times> int) set" where
  "all_offsuit_combos r_hi r_lo =
     set (concat (map (\<lambda>s1. map (\<lambda>s2. sorted_pair (card_of r_hi s1) (card_of r_lo s2))
                              (filter (\<lambda>s2. s1 \<noteq> s2) [0..3])) [0..3]))"

definition all_both_combos :: "int \<Rightarrow> int \<Rightarrow> (int \<times> int) set" where
  "all_both_combos r_hi r_lo = all_suited_combos r_hi r_lo \<union> all_offsuit_combos r_hi r_lo"

text \<open>
  \<open>_TOKEN.match(s)\<close> for the pattern
  \<^verbatim>\<open>^\s*(?P<hi>[2-9TJQKA])(?P<lo>[2-9TJQKA])?(?P<so>[so])?(?P<plus>\+)?\s*$\<close> with
  \<open>IGNORECASE\<close>. The three optional groups take disjoint characters, so the greedy match is
  the only one. The result is \<open>None\<close> when there is no match, else the groups \<open>hi\<close>, \<open>lo\<close>,
  \<open>so\<close> and whether \<open>plus\<close> matched.
\<close>

definition is_rank_char :: "char \<Rightarrow> bool" where
  "is_rank_char c = (upper c \<in> set ''23456789TJQKA'')"

definition is_so_char :: "char \<Rightarrow> bool" where
  "is_so_char c = (lower c \<in> set ''so'')"

definition optional_char :: "(char \<Rightarrow> bool) \<Rightarrow> string \<Rightarrow> char option \<times> string" where
  "optional_char cls s =
     (case s of
        [] \<Rightarrow> (None, s)
      | c # r \<Rightarrow> if cls c then (Some c, r) else (None, s))"

definition token_match :: "string \<Rightarrow> (char \<times> char option \<times> char option \<times> bool) option" where
  "token_match s =
     (case dropWhile is_space s of
        [] \<Rightarrow> None
      | hi # r1 \<Rightarrow>
          if \<not> is_rank_char hi then None
          else
            (let (lo, r2) = optional_char is_rank_char r1;
                 (so, r3) = optional_char is_so_char r2;
                 (plus', r4) = optional_char (\<lambda>c. c = CHR ''+'') r3
             in if list_all is_space r4 then Some (hi, lo, so, plus' \<noteq> None) else None))"

definition expand_simple_token ::
    "char \<Rightarrow> char option \<Rightarrow> char option \<Rightarrow> bool \<Rightarrow> error + (int \<times> int) set" where
  "expand_simple_token hi lo so plus' =
     and_then (rank_idx hi) (\<lambda>hi_i0.
     and_then (case lo of
                 None \<Rightarrow> Inr (hi_i0, hi_i0, True)
               | Some l \<Rightarrow>
                   and_then (rank_idx l) (\<lambda>lo_i0.
                     let is_pair = (upper hi = upper l) in
                     if \<not> is_pair \<and> hi_i0 < lo_i0 then Inr (lo_i0, hi_i0, is_pair)
                     else Inr (hi_i0, lo_i0, is_pair)))
       (\<lambda>(hi_i, lo_i, is_pair).
          if is_pair then
            and_then (rank_idx CHR ''A'') (\<lambda>stop.
              Inr (\<Union> (set (map all_pair_combos (if plus' then [hi_i..stop] else [hi_i])))))
          else
            (let add_nonpair = (\<lambda>h l.
                   case so of
                     None \<Rightarrow> all_both_combos h l
                   | Some c \<Rightarrow>
                       if lower c = CHR ''s'' then all_suited_combos h l
                       else all_offsuit_combos h l)
             in if plus' then
                  and_then (rank_idx CHR ''A'') (\<lambda>a.
                    Inr (\<Union> (set (map (\<lambda>h. add_nonpair h lo_i)
                                     (filter (\<lambda>h. h \<noteq> lo_i) [hi_i..a])))))
                else Inr (add_nonpair hi_i lo_i))))"

text \<open>The loop of \<open>_expand_dash_range\<close> over the low ranks, from \<open>lo_start\<close> down to \<open>lo_stop\<close>.\<close>

fun dash_loop :: "char \<Rightarrow> char option \<Rightarrow> int list \<Rightarrow> (int \<times> int) set \<Rightarrow> error + (int \<times> int) set" where
  "dash_loop hi1 so1 [] combos = Inr combos"
| "dash_loop hi1 so1 (l # ls) combos =
     and_then (expand_simple_token hi1 (Some (RANKS ! nat l)) so1 False)
       (\<lambda>s. dash_loop hi1 so1 ls (combos \<union> s))"

definition expand_dash_range :: "string \<Rightarrow> error + (int \<times> int) set" where
  "expand_dash_range token =
     (let left = strip (takeWhile (\<lambda>c. c \<noteq> CHR ''-'') token);
          right = strip (drop 1 (dropWhile (\<lambda>c. c \<noteq> CHR ''-'') token))
      in case (token_match left, token_match right) of
           (Some (hi1, lo1, so1, plus1), Some (hi2, lo2, so2, plus2)) \<Rightarrow>
             if plus1 \<or> plus2 then
               Inl (ValueError (''Le suffixe + est incompatible avec un intervalle: '' @ token))
             else
               (case (lo1, lo2) of
                  (Some lo1c, Some lo2c) \<Rightarrow>
                    if upper hi1 \<noteq> upper hi2 then
                      Inl (ValueError (''Intervalle avec hi differents: '' @ token))
                    else if map_option lower so1 \<noteq> map_option lower so2 then
                      Inl (ValueError (''Intervalle avec s/o incompatibles: '' @ token))
                    else
                      and_then (rank_idx hi1) (\<lambda>hi_i.
                      and_then (rank_idx lo1c) (\<lambda>l1.
                      and_then (rank_idx lo2c) (\<lambda>l2.
                        let lo_start = max l1 l2; lo_stop = min l1 l2
                        in dash_loop hi1 so1 (rev [lo_stop..lo_start]) {})))
                | _ \<Rightarrow>
                    Inl (ValueError (''Intervalle non pair sans lo explicite: '' @ token)))
         | _ \<Rightarrow> Inl (ValueError (''Range invalide: '' @ token)))"

text \<open>
  \<open>re.split(r"[,\s]+", text)\<close>: the fields between the runs of commas and whitespace, the
  first and the last possibly empty. \<open>cur\<close> is the field being read, reversed, and \<open>in_sep\<close>
  tells that the previous character was a separator.
\<close>

fun re_split :: "string \<Rightarrow> string \<Rightarrow> bool \<Rightarrow> string list" where
  "re_split [] cur in_sep = [rev cur]"
| "re_split (c # cs) cur in_sep =
     (if c = CHR '','' \<or> is_space c then
        (if in_sep then re_split cs cur True else rev cur # re_split cs [] True)
      else re_split cs (c # cur) False)"

fun parse_parts :: "string list \<Rightarrow> (int \<times> int) set \<Rightarrow> error + (int \<times> int) set" where
  "parse_parts [] combos = Inr combos"
| "parse_parts (p # ps) combos =
     (if CHR ''-'' \<in> set p then
        and_then (expand_dash_range p) (\<lambda>s. parse_parts ps (combos \<union> s))
      else
        (case token_match p of
           None \<Rightarrow> Inl (ValueError (''Token de range invalide: '' @ p))
         | Some (hi, lo, so, plus') \<Rightarrow>
             and_then (expand_simple_token hi lo so plus')
               (\<lambda>s. parse_parts ps (combos \<union> s))))"

definition parse_range :: "string \<Rightarrow> error + (int \<times> int) set" where
  "parse_range text =
     (if text = [] \<or> strip text = [] then Inl (ValueError ''Range vide'')
      else parse_parts (map strip (filter (\<lambda>p. strip p \<noteq> []) (re_split text [] False))) {})"

text \<open>
  \<open>filter_dead_combos\<close> reads its iterable of combos as a list, in the order the iterable
  yields them.
\<close>

definition filter_dead_combos :: "(int \<times> int) list \<Rightarrow> int list \<Rightarrow> (int \<times> int) list" where
  "filter_dead_combos combos dead =
     map (\<lambda>(c1, c2). (min c1 c2, max c1 c2))
         (filter (\<lambda>(c1, c2). c1 \<notin> set dead \<and> c2 \<notin> set dead \<and> c1 \<noteq> c2) combos)"

section \<open>Properties of the evaluator\<close>

subsection \<open>Combinations\<close>

lemma length_combinations: "length (combinations xs k) = length xs choose k"
  by (induction xs k rule: combinations.induct) simp_all

lemma combinations_length: "ys \<in> set (combinations xs k) \<Longrightarrow> length ys = k"
  by (induction xs k arbitrary: ys rule: combinations.induct) auto

lemma subset_add_mset_right: "(M::'a multiset) \<subseteq># N \<Longrightarrow> M \<subseteq># add_mset x N"
  by (meson multi_psub_of_add_self subset_mset.le_less subset_mset.le_less_trans)

lemma subset_add_mset_notin: "x \<notin># M \<Longrightarrow> M \<subseteq># add_mset x N \<Longrightarrow> M \<subseteq># N"
  by (metis Diff_eq_empty_iff_mset minus_add_mset_if_not_in_lhs)

lemma combinations_mset_subset:
  "ys \<in> set (combinations xs k) \<Longrightarrow> mset ys \<subseteq># mset xs"
  by (induction xs k arbitrary: ys rule: combinations.induct)
     (auto intro: subset_add_mset_right)

lemma combinations_complete:
  "M \<subseteq># mset xs \<Longrightarrow> size M = k \<Longrightarrow> \<exists>ys \<in> set (combinations xs k). mset ys = M"
proof (induction xs k arbitrary: M rule: combinations.induct)
  case (1 xs)
  then show ?case by simp
next
  case (2 k)
  then show ?case by simp
next
  case (3 x xs k)
  show ?case
  proof (cases "x \<in># M")
    case True
    then obtain M' where M': "M = add_mset x M'" by (meson multi_member_split)
    with 3 have "M' \<subseteq># mset xs" "size M' = k" by auto
    from 3(1)[OF this] obtain ys where "ys \<in> set (combinations xs k)" "mset ys = M'" by blast
    then show ?thesis using M' by (auto intro!: bexI[of _ "x # ys"])
  next
    case False
    with 3(3) have "M \<subseteq># mset xs"
      by (auto dest: subset_add_mset_notin)
    from 3(2)[OF this 3(4)] show ?thesis by auto
  qed
qed

lemma mset_combinations:
  "mset ` set (combinations xs k) = {M. M \<subseteq># mset xs \<and> size M = k}"
proof (intro equalityI subsetI)
  fix M assume "M \<in> mset ` set (combinations xs k)"
  then show "M \<in> {M. M \<subseteq># mset xs \<and> size M = k}"
    using combinations_mset_subset combinations_length
    by (metis (mono_tags, lifting) imageE mem_Collect_eq size_mset)
next
  fix M assume "M \<in> {M. M \<subseteq># mset xs \<and> size M = k}"
  then show "M \<in> mset ` set (combinations xs k)"
    using combinations_complete[of M xs k] by auto
qed

lemma evaluate5_mset:
  assumes "mset xs = mset ys"
  shows "evaluate5 xs = evaluate5 ys"
proof -
  have r: "sort (map rank xs) = sort (map rank ys)"
    using assms by (metis mset_map mset_sort sorted_sort properties_for_sort)
  have s: "set (map suit xs) = set (map suit ys)"
    using assms by (metis mset_map set_mset_mset)
  show ?thesis
    by (simp only: evaluate5_def Let_def r s)
qed

lemma best_over_fold:
  assumes "\<forall>c \<in> set combs. \<exists>s. evaluate5 c = Inr s"
  shows "best_over b combs = Inr (fold max (map (\<lambda>c. projr (evaluate5 c)) combs) b)"
  using assms
proof (induction combs arbitrary: b)
  case Nil
  then show ?case by simp
next
  case (Cons c combs)
  then obtain s where s: "evaluate5 c = Inr s" by auto
  have eq: "(if b < s then s else b) = max s b"
  proof (cases "b < s")
    case True
    then show ?thesis by (simp only: if_True max.absorb1[OF less_imp_le])
  next
    case False
    then have "s \<le> b" by (simp only: not_less)
    then show ?thesis using False by (simp only: if_False max.absorb2)
  qed
  show ?case using Cons.IH[of "max s b"] Cons.prems s eq by simp
qed

lemma best_over_Max:
  assumes "\<forall>c \<in> set combs. \<exists>s. evaluate5 c = Inr s"
  shows "best_over b combs = Inr (Max (insert b ((\<lambda>c. projr (evaluate5 c)) ` set combs)))"
proof -
  have "fold max (map (\<lambda>c. projr (evaluate5 c)) combs) b
        = Max (set (b # map (\<lambda>c. projr (evaluate5 c)) combs))"
    by (rule Max.set_eq_fold[symmetric])
  then show ?thesis using best_over_fold[OF assms, of b] by simp
qed

subsection \<open>Rank counts and groups\<close>

lemma map_of_fold_counts:
  "map_of (fold (\<lambda>r counts.
            AList.update r ((case map_of counts r of None \<Rightarrow> 0 | Some c \<Rightarrow> c) + 1) counts) rs acc) r
   = (if r \<in> set rs
      then Some ((case map_of acc r of None \<Rightarrow> 0 | Some c \<Rightarrow> c) + int (count_list rs r))
      else map_of acc r)"
proof (induction rs arbitrary: acc)
  case Nil
  then show ?case by simp
next
  case (Cons a rs)
  show ?case
    by (simp add: Cons.IH update_conv' split: option.splits)
qed

lemma distinct_fold_counts:
  "distinct (map fst acc) \<Longrightarrow>
   distinct (map fst (fold (\<lambda>r counts.
            AList.update r ((case map_of counts r of None \<Rightarrow> 0 | Some c \<Rightarrow> c) + 1) counts) rs acc))"
  by (induction rs arbitrary: acc) (simp_all add: distinct_update)

lemma map_of_rank_counts:
  "map_of (rank_counts rs) r = (if r \<in> set rs then Some (int (count_list rs r)) else None)"
  unfolding rank_counts_def by (simp add: map_of_fold_counts)

lemma distinct_rank_counts: "distinct (map fst (rank_counts rs))"
  unfolding rank_counts_def by (rule distinct_fold_counts) simp

lemma set_rank_counts:
  "set (rank_counts rs) = (\<lambda>r. (r, int (count_list rs r))) ` set rs"
proof -
  have "(r, c) \<in> set (rank_counts rs) \<longleftrightarrow> r \<in> set rs \<and> c = int (count_list rs r)" for r c
    using map_of_eq_Some_iff[OF distinct_rank_counts, of rs r c]
    by (auto simp: map_of_rank_counts split: if_splits)
  then show ?thesis by auto
qed

lemma set_rank_groups:
  "set (rank_groups (rank_counts rs)) = (\<lambda>r. (int (count_list rs r), r)) ` set rs"
  unfolding rank_groups_def by (auto simp: set_rank_counts image_iff)

lemma distinct_rank_groups: "distinct (rank_groups (rank_counts rs))"
proof -
  have "distinct (map (\<lambda>(r, cnt). (cnt, r)) (rank_counts rs))"
    using distinct_rank_counts[of rs]
    by (metis (no_types, lifting) distinct_map distinct_rank_counts inj_on_def prod.case_eq_if prod.collapse prod.inject)
  then show ?thesis unfolding rank_groups_def by simp
qed

lemma length_rank_groups: "length (rank_groups (rank_counts rs)) = card (set rs)"
proof -
  have "length (rank_groups (rank_counts rs)) = card (set (rank_groups (rank_counts rs)))"
    using distinct_rank_groups by (simp add: distinct_card)
  also have "\<dots> = card (set rs)"
    unfolding set_rank_groups by (rule card_image) (simp add: inj_on_def)
  finally show ?thesis .
qed

lemma length_filter_neq_count:
  "length (filter (\<lambda>x. x \<noteq> q) xs) + count_list xs q = length xs"
  by (induction xs) auto

lemma rank_groups_nonempty: "rs \<noteq> [] \<Longrightarrow> rank_groups (rank_counts rs) \<noteq> []"
  using length_rank_groups[of rs] by (auto simp: card_eq_0_iff)

lemma rank_groups_nth:
  assumes "i < length (rank_groups (rank_counts rs))"
  shows "snd (rank_groups (rank_counts rs) ! i) \<in> set rs"
    and "fst (rank_groups (rank_counts rs) ! i)
         = int (count_list rs (snd (rank_groups (rank_counts rs) ! i)))"
proof -
  have "rank_groups (rank_counts rs) ! i \<in> set (rank_groups (rank_counts rs))"
    using assms by simp
  then obtain r where "r \<in> set rs" "rank_groups (rank_counts rs) ! i = (int (count_list rs r), r)"
    unfolding set_rank_groups by auto
  then show "snd (rank_groups (rank_counts rs) ! i) \<in> set rs"
    and "fst (rank_groups (rank_counts rs) ! i)
         = int (count_list rs (snd (rank_groups (rank_counts rs) ! i)))"
    by simp_all
qed

lemma quads_kicker_exists:
  assumes "length rs = 5" "fst (rank_groups (rank_counts rs) ! 0) = 4"
  shows "filter (\<lambda>r. r \<noteq> snd (rank_groups (rank_counts rs) ! 0)) rs \<noteq> []"
proof -
  have "rs \<noteq> []" using assms by auto
  then have "0 < length (rank_groups (rank_counts rs))"
    using rank_groups_nonempty by blast
  from rank_groups_nth(2)[OF this] assms(2)
  have "count_list rs (snd (rank_groups (rank_counts rs) ! 0)) = 4" by simp
  with length_filter_neq_count[of "snd (rank_groups (rank_counts rs) ! 0)" rs] assms(1)
  have "length (filter (\<lambda>r. r \<noteq> snd (rank_groups (rank_counts rs) ! 0)) rs) = 1" by simp
  then show ?thesis by auto
qed

lemma two_pair_kicker_exists:
  assumes "length rs = 5"
  shows "filter (\<lambda>r. r \<notin> set (rev (sort (map snd
            (filter (\<lambda>(cnt, r). cnt = 2) (rank_groups (rank_counts rs))))))) rs \<noteq> []"
proof
  assume "filter (\<lambda>r. r \<notin> set (rev (sort (map snd
            (filter (\<lambda>(cnt, r). cnt = 2) (rank_groups (rank_counts rs))))))) rs = []"
  then have "\<forall>r \<in> set rs. r \<in> snd ` {p \<in> set (rank_groups (rank_counts rs)). fst p = 2}"
    by (auto simp: filter_empty_conv image_iff split: prod.splits)
  then have all2: "\<forall>r \<in> set rs. count_list rs r = 2"
    unfolding set_rank_groups by auto
  have "length rs = sum (count_list rs) (set rs)"
    by (simp add: sum_count_set)
  also have "\<dots> = sum (\<lambda>_. 2) (set rs)"
    using all2 by (intro sum.cong) auto
  also have "\<dots> = 2 * card (set rs)" by simp
  finally show False using assms by presburger
qed

lemma evaluate5_total:
  assumes "length cs = 5"
  shows "\<exists>s. evaluate5 cs = Inr s \<and> 0 \<le> fst s"
proof -
  define rs where "rs = rev (sort (map rank cs))"
  have len: "length rs = 5" using assms by (simp add: rs_def)
  then have "rs \<noteq> []" by auto
  then have ne: "rank_groups (rank_counts rs) \<noteq> []"
    by (rule rank_groups_nonempty)
  note q = quads_kicker_exists[OF len]
  note t = two_pair_kicker_exists[OF len]
  show ?thesis
    unfolding evaluate5_def Let_def rs_def[symmetric]
    using ne q t by (simp split: prod.splits)
qed

subsection \<open>The 7-card score as a maximum\<close>

lemma floor_score_less: "0 \<le> fst s \<Longrightarrow> ((-1, []) :: score) < s"
  by (cases s) (simp add: less_prod_def)

lemma evaluate7_Max:
  assumes "length cs = 7"
  shows "evaluate7 cs = Inr (Max ((\<lambda>c. projr (evaluate5 c)) ` set (combinations cs 5)))"
proof -
  let ?f = "\<lambda>c. projr (evaluate5 c)"
  have tot: "\<forall>c \<in> set (combinations cs 5). \<exists>s. evaluate5 c = Inr s"
    using evaluate5_total combinations_length by blast
  have "length (combinations cs 5) = 21"
    using assms by (simp add: length_combinations eval_nat_numeral binomial_Suc_Suc) 
  then obtain c0 where c0: "c0 \<in> set (combinations cs 5)"
    by (cases "combinations cs 5") auto
  have "0 \<le> fst (?f c0)"
    using evaluate5_total[of c0] combinations_length[OF c0] by auto
  then have lt: "(-1, []) < ?f c0" by (rule floor_score_less)
  have fin: "finite (?f ` set (combinations cs 5))" by simp
  have ne: "?f ` set (combinations cs 5) \<noteq> {}" using c0 by auto
  have "?f c0 \<le> Max (?f ` set (combinations cs 5))"
    using c0 by (intro Max_ge[OF fin]) auto
  with lt have "(-1, []) \<le> Max (?f ` set (combinations cs 5))"
    by (meson less_imp_le order_trans)
  then have "Max (insert (-1, []) (?f ` set (combinations cs 5))) = Max (?f ` set (combinations cs 5))"
    by (simp only: Max_insert[OF fin ne] max.absorb2)
  then show ?thesis
    using best_over_Max[OF tot, of "(-1, [])"] assms by (simp add: evaluate7_def)
qed

lemma evaluate7_mset:
  assumes "mset xs = mset ys"
  shows "evaluate7 xs = evaluate7 ys"
proof (cases "length xs = 7")
  case False
  moreover have "length ys = length xs" using assms by (metis size_mset)
  ultimately show ?thesis by (simp add: evaluate7_def)
next
  case True
  moreover have len: "length ys = length xs" using assms by (metis size_mset)
  have sub: "(\<lambda>c. projr (evaluate5 c)) ` set (combinations us 5)
            \<subseteq> (\<lambda>c. projr (evaluate5 c)) ` set (combinations vs 5)"
    if "mset us = mset vs" for us vs
  proof
    fix s assume "s \<in> (\<lambda>c. projr (evaluate5 c)) ` set (combinations us 5)"
    then obtain c where c: "c \<in> set (combinations us 5)" "s = projr (evaluate5 c)" by auto
    then have "mset c \<in> mset ` set (combinations vs 5)"
      unfolding mset_combinations using that
      by (metis (mono_tags, lifting) combinations_length combinations_mset_subset mem_Collect_eq size_mset)
    then obtain c' where "c' \<in> set (combinations vs 5)" "mset c' = mset c" by auto
    then show "s \<in> (\<lambda>c. projr (evaluate5 c)) ` set (combinations vs 5)"
      using c(2) evaluate5_mset[of c' c] by (metis image_eqI)
  qed
  have "(\<lambda>c. projr (evaluate5 c)) ` set (combinations xs 5)
      = (\<lambda>c. projr (evaluate5 c)) ` set (combinations ys 5)"
    using sub[OF assms] sub[OF assms[symmetric]] by (rule equalityI)
  then show ?thesis
    using True len by (simp add: evaluate7_Max)
qed

lemma distinct_sub_mset:
  assumes "distinct cs" "mset c \<subseteq># mset cs"
  shows "distinct c"
proof -
  have "count (mset c) a = (if a \<in> set c then 1 else 0)" for a
  proof -
    have "count (mset c) a \<le> count (mset cs) a"
      using assms(2) by (rule mset_subset_eq_count)
    also have "\<dots> \<le> 1" using assms(1) by (simp add: distinct_count_atmost_1)
    finally have le: "count (mset c) a \<le> 1" .
    show ?thesis
    proof (cases "a \<in> set c")
      case True
      then have "count (mset c) a \<noteq> 0" by (simp add: count_eq_zero_iff)
      with le True show ?thesis by arith
    next
      case False
      then show ?thesis by (simp add: count_eq_zero_iff)
    qed
  qed
  then show ?thesis by (simp add: distinct_count_atmost_1)
qed

lemma mset_sorted_list_of_set_set:
  "distinct (ys::int list) \<Longrightarrow> mset (sorted_list_of_set (set ys)) = mset ys"
  by (metis set_eq_iff_mset_eq_distinct sorted_list_of_set.distinct_sorted_key_list_of_set
      sorted_list_of_set.set_sorted_key_list_of_set List.finite_set)

lemma five_subset_in_combinations:
  assumes "distinct cs" "S \<subseteq> set cs" "card S = 5" "set ys = S" "length ys = 5"
  shows "\<exists>c \<in> set (combinations cs 5). mset c = mset ys"
proof -
  have d: "distinct ys" using assms by (simp add: card_distinct)
  have "mset ys = mset_set S" using d assms(4) by (metis mset_set_set)
  moreover have "mset cs = mset_set (set cs)" using assms(1) by (simp add: mset_set_set)
  moreover have "mset_set S \<subseteq># mset_set (set cs)"
    using assms(2) by (intro subset_imp_msubset_mset_set) auto
  ultimately have "mset ys \<subseteq># mset cs" by simp
  then show ?thesis using combinations_complete[of "mset ys" cs 5] assms(5) by simp
qed

lemma combination_is_five_subset:
  assumes "distinct cs" "c \<in> set (combinations cs 5)"
  shows "set c \<in> five_card_subsets cs \<and> mset (sorted_list_of_set (set c)) = mset c"
proof -
  have sub: "mset c \<subseteq># mset cs" using assms(2) by (rule combinations_mset_subset)
  have d: "distinct c"
    using assms(1) sub by (rule distinct_sub_mset)
  have "set c \<subseteq> set cs" using sub by (metis set_mset_mono set_mset_mset)
  moreover have "card (set c) = 5"
    using d combinations_length[OF assms(2)] by (simp add: distinct_card)
  moreover have "mset (sorted_list_of_set (set c)) = mset c"
    using d by (rule mset_sorted_list_of_set_set)
  ultimately show ?thesis by (simp add: five_card_subsets_def)
qed


subsection \<open>Wheel and six-high straights\<close>

lemma sorted_ranks_of_rank_set:
  assumes "length w = 5" "set (map rank w) = S" "card S = 5"
  shows "rev (sort (map rank w)) = rev (sorted_list_of_set S)"
proof -
  have "card (set (map rank w)) = length (map rank w)" using assms by simp
  then have "distinct (map rank w)" by (rule card_distinct)
  then have "distinct (sort (map rank w))" by simp
  moreover have "sorted (sort (map rank w))" by simp
  moreover have "set (sort (map rank w)) = S" using assms(2) by simp
  ultimately have "sort (map rank w) = sorted_list_of_set S"
    by (metis sorted_list_of_set.idem_if_sorted_distinct)
  then show ?thesis by simp
qed

lemma rank_counts_wheel: "rank_counts [12, 3, 2, 1, 0] = [(12, 1), (3, 1), (2, 1), (1, 1), (0, 1)]"
  by (simp add: rank_counts_def)

lemma rank_groups_wheel:
  "rank_groups [(12, 1), (3, 1), (2, 1), (1, 1), (0, 1)] = [(1, 12), (1, 3), (1, 2), (1, 1), (1, 0)]"
  by (simp add: rank_groups_def less_eq_prod_def insort_key.simps)

lemma is_straight_wheel: "is_straight [12, 3, 2, 1, 0] = (True, 3)"
  by (simp add: is_straight_def eval_nat_numeral upt_rec)

lemma evaluate5_wheel_ranks:
  assumes "rev (sort (map rank w)) = [12, 3, 2, 1, 0]"
  shows "evaluate5 w = Inr (if card (set (map suit w)) = 1 then 8 else 4, [3])"
  unfolding evaluate5_def assms Let_def rank_counts_wheel rank_groups_wheel
  by (simp add: is_straight_wheel)

lemma rank_counts_six: "rank_counts [4, 3, 2, 1, 0] = [(4, 1), (3, 1), (2, 1), (1, 1), (0, 1)]"
  by (simp add: rank_counts_def)

lemma rank_groups_six:
  "rank_groups [(4, 1), (3, 1), (2, 1), (1, 1), (0, 1)] = [(1, 4), (1, 3), (1, 2), (1, 1), (1, 0)]"
  by (simp add: rank_groups_def less_eq_prod_def)

lemma is_straight_six: "is_straight [4, 3, 2, 1, 0] = (True, 4)"
  by (simp add: is_straight_def eval_nat_numeral upt_rec)

lemma evaluate5_six_high_ranks:
  assumes "rev (sort (map rank w)) = [4, 3, 2, 1, 0]"
  shows "evaluate5 w = Inr (if card (set (map suit w)) = 1 then 8 else 4, [4])"
  unfolding evaluate5_def assms Let_def rank_counts_six rank_groups_six
  by (simp add: is_straight_six)

lemma evaluate5_wheel:
  assumes "length w = 5" "set (map rank w) = {12, 3, 2, 1, 0}"
  shows "evaluate5 w = Inr (if card (set (map suit w)) = 1 then 8 else 4, [3])"
proof -
  have "card {12, 3, 2, 1, 0 :: int} = 5" by simp
  from sorted_ranks_of_rank_set[OF assms this]
  have "rev (sort (map rank w)) = [12, 3, 2, 1, 0]" by simp
  then show ?thesis by (rule evaluate5_wheel_ranks)
qed

lemma evaluate5_six_high:
  assumes "length w = 5" "set (map rank w) = {4, 3, 2, 1, 0}"
  shows "evaluate5 w = Inr (if card (set (map suit w)) = 1 then 8 else 4, [4])"
proof -
  have "card {4, 3, 2, 1, 0 :: int} = 5" by simp
  from sorted_ranks_of_rank_set[OF assms this]
  have "rev (sort (map rank w)) = [4, 3, 2, 1, 0]" by simp
  then show ?thesis by (rule evaluate5_six_high_ranks)
qed

lemma pick_cards_of_ranks:
  assumes "set rl \<subseteq> rank ` set h"
  shows "\<exists>ys. map rank ys = rl \<and> set ys \<subseteq> set h"
  using assms
proof (induction rl)
  case Nil
  then show ?case by simp
next
  case (Cons r rl)
  then obtain ys where ys: "map rank ys = rl" "set ys \<subseteq> set h" by auto
  from Cons.prems obtain c where "c \<in> set h" "rank c = r" by auto
  with ys have "map rank (c # ys) = r # rl \<and> set (c # ys) \<subseteq> set h" by simp
  then show ?case by (intro exI[of _ "c # ys"])
qed

lemma distinct_subset_mset:
  assumes "distinct ys" "set ys \<subseteq> set h"
  shows "mset ys \<subseteq># mset h"
proof (rule mset_subset_eqI)
  fix a
  show "count (mset ys) a \<le> count (mset h) a"
  proof (cases "a \<in> set ys")
    case True
    then have "count (mset ys) a = 1" using assms(1) by (simp add: distinct_count_atmost_1)
    moreover have "a \<in> set h" using True assms(2) by auto
    then have "count (mset h) a \<noteq> 0" by (simp add: count_eq_zero_iff)
    ultimately show ?thesis by arith
  next
    case False
    then have "a \<notin># mset ys" by simp
    then have "count (mset ys) a = 0" by (simp only: not_in_iff)
    then show ?thesis by (simp only: le0)
  qed
qed

lemma evaluate7_lower_bound:
  assumes "length h = 7" "mset ys \<subseteq># mset h" "length ys = 5" "evaluate5 ys = Inr s"
  shows "\<exists>b. evaluate7 h = Inr b \<and> s \<le> b"
proof -
  let ?A = "(\<lambda>c. projr (evaluate5 c)) ` set (combinations h 5)"
  from combinations_complete[OF assms(2), of 5] assms(3)
  obtain c where c: "c \<in> set (combinations h 5)" "mset c = mset ys" by auto
  then have "evaluate5 c = Inr s" using evaluate5_mset[of c ys] assms(4) by simp
  then have "s \<in> ?A" using c(1) by force
  then have "s \<le> Max ?A" by (intro Max_ge) auto
  then show ?thesis using evaluate7_Max[OF assms(1)] by simp
qed

lemma evaluate7_upper_bound:
  assumes "length h = 7"
    and "\<And>c s. c \<in> set (combinations h 5) \<Longrightarrow> evaluate5 c = Inr s \<Longrightarrow> s \<le> t"
  shows "\<exists>b. evaluate7 h = Inr b \<and> b \<le> t"
proof -
  let ?A = "(\<lambda>c. projr (evaluate5 c)) ` set (combinations h 5)"
  have "length (combinations h 5) = 21"
    using assms(1) by (simp add: length_combinations eval_nat_numeral binomial_Suc_Suc)
  then have ne: "?A \<noteq> {}" by (cases "combinations h 5") auto
  have "Max ?A \<in> ?A" by (rule Max_in) (use ne in auto)
  then obtain c where c: "c \<in> set (combinations h 5)" "Max ?A = projr (evaluate5 c)" by auto
  obtain s where s: "evaluate5 c = Inr s"
    using evaluate5_total[of c] combinations_length[OF c(1)] by auto
  from assms(2)[OF c(1) s] c(2) s have "Max ?A \<le> t" by simp
  then show ?thesis using evaluate7_Max[OF assms(1)] by simp
qed

lemma combination_no_flush:
  assumes "c \<in> set (combinations h 5)"
    and "\<forall>d \<in> set h. length (filter (\<lambda>e. suit e = suit d) h) < 5"
  shows "card (set (map suit c)) \<noteq> 1"
proof
  assume one: "card (set (map suit c)) = 1"
  have len: "length c = 5" using assms(1) by (rule combinations_length)
  then obtain d where d: "d \<in> set c" by (cases c) auto
  from one obtain s where s: "set (map suit c) = {s}" by (auto simp: card_1_singleton_iff)
  have "suit e = s" if "e \<in> set c" for e
    using that s by (metis imageI set_map singletonD)
  then have all: "\<forall>e \<in> set c. suit e = suit d" using d by simp
  have sub: "mset c \<subseteq># mset h" using assms(1) by (rule combinations_mset_subset)
  then have "d \<in> set h" using d by (metis mset_subset_eqD set_mset_mset)
  with assms(2) have lt: "length (filter (\<lambda>e. suit e = suit d) h) < 5" by blast
  have "filter (\<lambda>e. suit e = suit d) c = c" using all by (simp add: filter_id_conv)
  then have "size (filter_mset (\<lambda>e. suit e = suit d) (mset c)) = 5"
    using len by (metis mset_filter size_mset)
  moreover have "filter_mset (\<lambda>e. suit e = suit d) (mset c) \<subseteq># filter_mset (\<lambda>e. suit e = suit d) (mset h)"
    using sub by (rule multiset_filter_mono)
  then have "size (filter_mset (\<lambda>e. suit e = suit d) (mset c)) \<le> size (filter_mset (\<lambda>e. suit e = suit d) (mset h))"
    by (rule size_mset_mono)
  ultimately show False using lt by (metis mset_filter size_mset not_less)
qed

lemma combination_distinct_ranks:
  assumes "c \<in> set (combinations h 5)" "distinct (map rank h)"
  shows "distinct (map rank c)"
proof -
  have "mset c \<subseteq># mset h" using assms(1) by (rule combinations_mset_subset)
  then have "image_mset rank (mset c) \<subseteq># image_mset rank (mset h)"
    by (rule image_mset_subseteq_mono)
  then have "mset (map rank c) \<subseteq># mset (map rank h)" by simp
  with assms(2) show ?thesis by (rule distinct_sub_mset)
qed

lemma distinct_count_list_one:
  "distinct xs \<Longrightarrow> x \<in> set xs \<Longrightarrow> count_list xs x = 1"
  by (induction xs) auto

lemma sort_rev_sort: "sort (rev (sort (xs::int list))) = sort xs"
  by (rule properties_for_sort) simp_all

lemma evaluate5_distinct_ranks:
  assumes "length c = 5" "distinct (map rank c)" "card (set (map suit c)) \<noteq> 1"
  shows "evaluate5 c =
      (if fst (is_straight (rev (sort (map rank c))))
       then Inr (4, [snd (is_straight (rev (sort (map rank c))))])
       else Inr (0, rev (sort (map rank c))))"
proof -
  define rs where "rs = rev (sort (map rank c))"
  have d: "distinct rs" using assms(2) by (simp add: rs_def)
  have "length rs = 5" using assms(1) by (simp add: rs_def)
  then have "rs \<noteq> []" by auto
  then have ne: "rank_groups (rank_counts rs) \<noteq> []" by (rule rank_groups_nonempty)
  then have "0 < length (rank_groups (rank_counts rs))" by simp
  from rank_groups_nth[OF this] d
  have one: "fst (rank_groups (rank_counts rs) ! 0) = 1"
    by (simp add: distinct_count_list_one)
  have "rev (sort rs) = rs" by (simp add: rs_def sort_rev_sort)
  then have u: "rev (sort (remdups rs)) = rs"
    by (simp only: distinct_remdups_id[OF d])
  show ?thesis
    unfolding evaluate5_def Let_def rs_def[symmetric] u
    using ne one assms(3) by (simp add: case_prod_beta)
qed

lemma straight_window_five:
  assumes "length rs = 5" "straight_window rs [0..<nat (int (length rs) - 4 + 1)] = Some h"
  shows "rs = [h, h - 1, h - 2, h - 3, h - 4]"
proof -
  from assms(1) obtain a b c d e where rs: "rs = [a, b, c, d, e]"
    by (auto simp: length_Suc_conv eval_nat_numeral)
  have "[0..<nat (int (length rs) - 4 + 1)] = [0, 1]"
    using assms(1) by (simp add: upt_rec)
  with assms(2) show ?thesis
    unfolding rs by (auto simp: eval_nat_numeral Let_def split: if_splits)
qed

lemma rank_range: "0 \<le> rank c \<and> rank c \<le> 12"
  by (simp add: rank_def) 

lemma no_run_of_five:
  assumes m0: "k \<in> {12, 3, 2, 1, 0, rx, ry}"
    and m1: "k + 1 \<in> {12, 3, 2, 1, 0, rx, ry}"
    and m2: "k + 2 \<in> {12, 3, 2, 1, 0, rx, ry}"
    and m3: "k + 3 \<in> {12, 3, 2, 1, 0, rx, ry}"
    and m4: "k + 4 \<in> {12, 3, 2, 1, 0, rx, ry}"
    and k: "0 \<le> (k::int)"
    and rx: "5 \<le> rx" "rx \<le> 11" and ry: "5 \<le> ry" "ry \<le> 11"
  shows False
proof -
  have le12: "j \<le> 12" if "j \<in> {12, 3, 2, 1, 0, rx, ry}" for j
    using that rx ry by auto
  have n4: "(4::int) \<notin> {12, 3, 2, 1, 0, rx, ry}" using rx ry by auto
  have "k \<noteq> 0" using m4 n4 by auto
  moreover have "k \<noteq> 1" using m3 n4 by auto
  moreover have "k \<noteq> 2" using m2 n4 by auto
  moreover have "k \<noteq> 3" using m1 n4 by auto
  moreover have k8: "k \<le> 8" using le12[OF m4] by simp
  ultimately have k0: "k = rx \<or> k = ry" using m0 by auto
  then have k5: "5 \<le> k" using rx ry by auto
  have k1: "k + 1 = rx \<or> k + 1 = ry" using m1 k5 k8 by auto
  have k2: "k + 2 = rx \<or> k + 2 = ry" using m2 k5 k8 by auto
  from k0 k1 k2 show False by arith
qed

lemma wheel_hand_score:
  assumes len: "length h1 = 7"
    and perm: "mset h1 = mset (w @ [x, y])"
    and wheel: "set (map rank w) = {12, 3, 2, 1, 0}"
    and rx: "rank x \<notin> {12, 3, 2, 1, 0, 4}"
    and ry: "rank y \<notin> {12, 3, 2, 1, 0, 4}"
    and rxy: "rank x \<noteq> rank y"
    and off: "\<forall>d \<in> set h1. length (filter (\<lambda>e. suit e = suit d) h1) < 5"
  shows "evaluate7 h1 = Inr (4, [3])"
proof -
  have lw: "length w = 5"
  proof -
    have "length h1 = length (w @ [x, y])" using perm by (metis size_mset)
    with len show ?thesis by simp
  qed
  have "card (set (map rank w)) = length (map rank w)" using wheel lw by simp
  then have dw: "distinct (map rank w)" by (rule card_distinct)
  have "distinct (map rank (w @ [x, y]))"
    using dw rx ry rxy wheel by auto
  moreover have "mset (map rank h1) = mset (map rank (w @ [x, y]))"
    using perm by (metis mset_map)
  ultimately have dh: "distinct (map rank h1)" by (metis mset_eq_imp_distinct_iff)
  have ranks: "rank ` set h1 = {12, 3, 2, 1, 0, rank x, rank y}"
  proof -
    have "set h1 = set (w @ [x, y])" using perm by (metis set_mset_mset)
    then have "rank ` set h1 = set (map rank w) \<union> {rank x, rank y}" by auto
    then show ?thesis unfolding wheel by auto
  qed
  have rxb: "5 \<le> rank x" "rank x \<le> 11" using rx rank_range[of x] by auto
  have ryb: "5 \<le> rank y" "rank y \<le> 11" using ry rank_range[of y] by auto
  have upper: "s \<le> (4, [3])" if c: "c \<in> set (combinations h1 5)" and s: "evaluate5 c = Inr s" for c s
  proof -
    let ?rs = "rev (sort (map rank c))"
    have lc: "length c = 5" using c by (rule combinations_length)
    have dc: "distinct (map rank c)" using c dh by (rule combination_distinct_ranks)
    have nf: "card (set (map suit c)) \<noteq> 1" using c off by (rule combination_no_flush)
    have sub: "set ?rs \<subseteq> rank ` set h1"
    proof -
      have "mset c \<subseteq># mset h1" using c by (rule combinations_mset_subset)
      then have "set c \<subseteq> set h1" by (metis set_mset_mono set_mset_mset)
      then show ?thesis by auto
    qed
    have nowin: "straight_window ?rs [0..<nat (int (length ?rs) - 4 + 1)] = None"
    proof (rule ccontr)
      assume "straight_window ?rs [0..<nat (int (length ?rs) - 4 + 1)] \<noteq> None"
      then obtain h where "straight_window ?rs [0..<nat (int (length ?rs) - 4 + 1)] = Some h"
        by auto
      moreover have "length ?rs = 5" using lc by simp
      ultimately have eq: "?rs = [h, h - 1, h - 2, h - 3, h - 4]"
        by (intro straight_window_five[of ?rs h])
      have in_S: "set [h, h - 1, h - 2, h - 3, h - 4] \<subseteq> {12, 3, 2, 1, 0, rank x, rank y}"
        using sub unfolding eq ranks .
      have m0: "h - 4 \<in> {12, 3, 2, 1, 0, rank x, rank y}" using in_S by simp
      have m1: "h - 4 + 1 \<in> {12, 3, 2, 1, 0, rank x, rank y}" using in_S by simp
      have m2: "h - 4 + 2 \<in> {12, 3, 2, 1, 0, rank x, rank y}" using in_S by simp
      have m3: "h - 4 + 3 \<in> {12, 3, 2, 1, 0, rank x, rank y}" using in_S by simp
      have m4: "h - 4 + 4 \<in> {12, 3, 2, 1, 0, rank x, rank y}" using in_S by simp
      have "h - 4 \<in> rank ` set h1" using m0 unfolding ranks .
      then obtain c0 where "h - 4 = rank c0" by auto
      then have "0 \<le> h - 4" using rank_range[of c0] by simp
      from no_run_of_five[OF m0 m1 m2 m3 m4 this rxb ryb] show False .
    qed
    have "s = (4, [3]) \<or> s = (0, ?rs)"
      using s evaluate5_distinct_ranks[OF lc dc nf] nowin
      by (auto simp: is_straight_def split: if_splits)
    then show ?thesis by (auto simp: less_eq_prod_def)
  qed
  have "\<exists>b. evaluate7 h1 = Inr b \<and> b \<le> (4, [3])"
  proof (rule evaluate7_upper_bound[OF len])
    fix c s assume "c \<in> set (combinations h1 5)" "evaluate5 c = Inr s"
    then show "s \<le> (4, [3])" by (rule upper)
  qed
  then obtain b where b: "evaluate7 h1 = Inr b" "b \<le> (4, [3])" by (elim exE conjE)
  have subw: "mset w \<subseteq># mset h1" unfolding perm by simp
  have "card (set (map suit w)) \<noteq> 1"
  proof -
    from combinations_complete[OF subw, of 5] lw
    obtain c where c: "c \<in> set (combinations h1 5)" "mset c = mset w" by auto
    have "set (map suit c) = set (map suit w)" using c(2) by (metis mset_map set_mset_mset)
    then show ?thesis using combination_no_flush[OF c(1) off] by simp
  qed
  then have "evaluate5 w = Inr (4, [3])" using evaluate5_wheel[OF lw wheel] by simp
  from evaluate7_lower_bound[OF len subw lw this] b
  show ?thesis by auto
qed

lemma six_high_hand_score:
  assumes len: "length h2 = 7" and six: "{4, 3, 2, 1, 0} \<subseteq> rank ` set h2"
  shows "\<exists>b. evaluate7 h2 = Inr b \<and> (4, [4]) \<le> b"
proof -
  have "set [4, 3, 2, 1, 0] \<subseteq> rank ` set h2" using six by simp
  from pick_cards_of_ranks[OF this]
  obtain ys where ys: "map rank ys = [4, 3, 2, 1, 0]" "set ys \<subseteq> set h2"
    by (elim exE conjE)
  have "length (map rank ys) = 5" unfolding ys(1) by simp
  then have ly: "length ys = 5" by simp
  have "distinct (map rank ys)" unfolding ys(1) by simp
  then have "distinct ys" by (simp add: distinct_map)
  then have sub: "mset ys \<subseteq># mset h2" using ys(2) by (rule distinct_subset_mset)
  have "set (map rank ys) = {4, 3, 2, 1, 0}" unfolding ys(1) by simp
  from evaluate5_six_high[OF ly this]
  obtain s where s: "evaluate5 ys = Inr s" "(4, [4]) \<le> s"
    by (auto simp: less_eq_prod_def)
  from evaluate7_lower_bound[OF len sub ly s(1)] s(2) show ?thesis
    by (meson order_trans)
qed

section \<open>Claims about the evaluator\<close>

text \<open>
  Claim C1. For every sequence of exactly 7 distinct cards, \<open>evaluate7\<close> returns a score, and
  that score is the maximum, in the lexicographic order on (category, tiebreak), of the 5-card
  score over the five-card subsets of the input: it is the score of one of the subsets and no
  subset scores higher. There are \<open>C(7,5) = 21\<close> such subsets, and the 5-card score of a subset
  does not depend on the order in which its cards are listed. (The cards need not lie in
  \<open>[0,51]\<close> for this.)
\<close>

theorem evaluate7_is_max_over_five_card_subsets:
  assumes "length cards7 = 7" and "distinct cards7"
  shows "(\<exists>best. evaluate7 cards7 = Inr best
            \<and> (\<exists>S \<in> five_card_subsets cards7. score5 S = Inr best)
            \<and> (\<forall>S \<in> five_card_subsets cards7. \<exists>s. score5 S = Inr s \<and> s \<le> best))
       \<and> card (five_card_subsets cards7) = 21
       \<and> (\<forall>S \<in> five_card_subsets cards7. \<forall>ys. set ys = S \<and> length ys = 5
              \<longrightarrow> evaluate5 ys = score5 S)"
proof -
  let ?f = "\<lambda>c. projr (evaluate5 c)"
  let ?A = "?f ` set (combinations cards7 5)"
  have e7: "evaluate7 cards7 = Inr (Max ?A)" using assms(1) by (rule evaluate7_Max)
  have fin: "finite ?A" by simp
  have ind: "evaluate5 ys = score5 S"
    if "S \<in> five_card_subsets cards7" "set ys = S" "length ys = 5" for S ys
  proof -
    have "card S = 5" using that(1) by (simp add: five_card_subsets_def)
    then have "distinct ys" using that by (simp add: card_distinct)
    then have "mset (sorted_list_of_set S) = mset ys"
      using that(2) mset_sorted_list_of_set_set[of ys] by simp
    then show ?thesis unfolding score5_def by (rule evaluate5_mset[symmetric])
  qed
  have len_sl: "length (sorted_list_of_set S) = 5 \<and> set (sorted_list_of_set S) = S"
    if "S \<in> five_card_subsets cards7" for S
  proof -
    have "finite S" using that by (auto simp: five_card_subsets_def intro: finite_subset)
    then show ?thesis using that by (simp add: five_card_subsets_def)
  qed
  have in_A: "\<exists>s. score5 S = Inr s \<and> s \<in> ?A" if "S \<in> five_card_subsets cards7" for S
  proof -
    from that have "S \<subseteq> set cards7" "card S = 5" by (auto simp: five_card_subsets_def)
    from five_subset_in_combinations[OF assms(2) this, of "sorted_list_of_set S"] len_sl[OF that]
    obtain c where c: "c \<in> set (combinations cards7 5)" "mset c = mset (sorted_list_of_set S)"
      by auto
    then have eq: "evaluate5 c = score5 S" unfolding score5_def by (intro evaluate5_mset)
    obtain s where "evaluate5 c = Inr s"
      using evaluate5_total[of c] combinations_length[OF c(1)] by auto
    then show ?thesis using eq c(1) by force
  qed
  have ne: "?A \<noteq> {}"
  proof -
    have "length (combinations cards7 5) = 21"
      using assms(1) by (simp add: length_combinations eval_nat_numeral binomial_Suc_Suc)
    then show ?thesis by (cases "combinations cards7 5") auto
  qed
  have part1: "\<exists>best. evaluate7 cards7 = Inr best
            \<and> (\<exists>S \<in> five_card_subsets cards7. score5 S = Inr best)
            \<and> (\<forall>S \<in> five_card_subsets cards7. \<exists>s. score5 S = Inr s \<and> s \<le> best)"
  proof (rule exI[of _ "Max ?A"], intro conjI ballI)
    show "evaluate7 cards7 = Inr (Max ?A)" by (rule e7)
    have "Max ?A \<in> ?A" using fin ne by (rule Max_in)
    then obtain c where c: "c \<in> set (combinations cards7 5)" "Max ?A = ?f c" by auto
    from combination_is_five_subset[OF assms(2) c(1)]
    have S: "set c \<in> five_card_subsets cards7" "mset (sorted_list_of_set (set c)) = mset c"
      by auto
    have "score5 (set c) = evaluate5 c" unfolding score5_def using S(2) by (rule evaluate5_mset)
    moreover obtain s where "evaluate5 c = Inr s"
      using evaluate5_total[of c] combinations_length[OF c(1)] by auto
    ultimately have "score5 (set c) = Inr (Max ?A)" using c(2) by simp
    then show "\<exists>S \<in> five_card_subsets cards7. score5 S = Inr (Max ?A)" using S(1) by blast
  next
    fix S assume "S \<in> five_card_subsets cards7"
    from in_A[OF this] obtain s where "score5 S = Inr s" "s \<in> ?A" by auto
    then show "\<exists>s. score5 S = Inr s \<and> s \<le> Max ?A" using Max_ge[OF fin] by auto
  qed
  have part2: "card (five_card_subsets cards7) = 21"
  proof -
    have "card (set cards7) = 7" using assms by (simp add: distinct_card)
    moreover have "five_card_subsets cards7 = {K. K \<subseteq> set cards7 \<and> card K = 5}"
      by (auto simp: five_card_subsets_def)
    ultimately show ?thesis
      using n_subsets[of "set cards7" 5] by (simp add: eval_nat_numeral binomial_Suc_Suc)
  qed
  have part3: "\<forall>S \<in> five_card_subsets cards7. \<forall>ys. set ys = S \<and> length ys = 5
              \<longrightarrow> evaluate5 ys = score5 S"
    using ind by blast
  from part1 part2 part3 show ?thesis by (intro conjI)
qed

theorem evaluate7_is_max_over_five_card_subsets_witness:
  "length [12, 16, 28, 40, 0, 24, 36 :: int] = 7 \<and> distinct [12, 16, 28, 40, 0, 24, 36 :: int]
   \<and> (\<exists>best. evaluate7 [12, 16, 28, 40, 0, 24, 36] = Inr best
        \<and> (\<exists>S \<in> five_card_subsets [12, 16, 28, 40, 0, 24, 36]. score5 S = Inr best)
        \<and> (\<forall>S \<in> five_card_subsets [12, 16, 28, 40, 0, 24, 36].
              \<exists>s. score5 S = Inr s \<and> s \<le> best))"
proof -
  have len: "length [12, 16, 28, 40, 0, 24, 36 :: int] = 7" by simp
  have dis: "distinct [12, 16, 28, 40, 0, 24, 36 :: int]" by simp
  from evaluate7_is_max_over_five_card_subsets[OF len dis]
  have "\<exists>best. evaluate7 [12, 16, 28, 40, 0, 24, 36] = Inr best
        \<and> (\<exists>S \<in> five_card_subsets [12, 16, 28, 40, 0, 24, 36]. score5 S = Inr best)
        \<and> (\<forall>S \<in> five_card_subsets [12, 16, 28, 40, 0, 24, 36].
              \<exists>s. score5 S = Inr s \<and> s \<le> best)"
    by (rule conjunct1)
  with len dis show ?thesis by (intro conjI)
qed

text \<open>
  Claim C2. A 5-card hand whose rank set is \<open>{A,5,4,3,2}\<close> (rank indices 12,3,2,1,0) is
  scored as a straight, or a straight flush if its cards share one suit, with high rank
  index 3 (the five), never 12 (the ace). Consequently a 7-card hand made of such a wheel plus
  two unrelated off-suit cards scores exactly \<open>(4, [3])\<close>, strictly below any 7-card hand that
  contains the ranks 6,5,4,3,2. The two added cards are unrelated when their ranks differ from
  each other, from the wheel's ranks and from the six (rank index 4), and off-suit when no
  five cards of the hand share a suit.
\<close>

theorem wheel_is_five_high_below_six_high:
  "(\<forall>w. length w = 5 \<and> set (map rank w) = {12, 3, 2, 1, 0} \<longrightarrow>
        evaluate5 w = Inr (if card (set (map suit w)) = 1 then 8 else 4, [3]))
   \<and> (\<forall>h1 h2 w x y.
        length h1 = 7 \<and> mset h1 = mset (w @ [x, y]) \<and> set (map rank w) = {12, 3, 2, 1, 0}
        \<and> rank x \<notin> {12, 3, 2, 1, 0, 4} \<and> rank y \<notin> {12, 3, 2, 1, 0, 4} \<and> rank x \<noteq> rank y
        \<and> list_all (\<lambda>d. length (filter (\<lambda>e. suit e = suit d) h1) < 5) h1
        \<and> length h2 = 7 \<and> {4, 3, 2, 1, 0} \<subseteq> rank ` set h2
        \<longrightarrow> evaluate7 h1 = Inr (4, [3])
            \<and> (\<exists>s2. evaluate7 h2 = Inr s2 \<and> (4, [3]) < s2))"
proof (intro conjI allI impI)
  fix w assume "length w = 5 \<and> set (map rank w) = {12, 3, 2, 1, 0}"
  then show "evaluate5 w = Inr (if card (set (map suit w)) = 1 then 8 else 4, [3])"
    using evaluate5_wheel by blast
next
  fix h1 h2 w :: "int list" and x y :: int
  assume a: "length h1 = 7 \<and> mset h1 = mset (w @ [x, y]) \<and> set (map rank w) = {12, 3, 2, 1, 0}
        \<and> rank x \<notin> {12, 3, 2, 1, 0, 4} \<and> rank y \<notin> {12, 3, 2, 1, 0, 4} \<and> rank x \<noteq> rank y
        \<and> list_all (\<lambda>d. length (filter (\<lambda>e. suit e = suit d) h1) < 5) h1
        \<and> length h2 = 7 \<and> {4, 3, 2, 1, 0} \<subseteq> rank ` set h2"
  then have off: "\<forall>d \<in> set h1. length (filter (\<lambda>e. suit e = suit d) h1) < 5"
    by (simp add: list_all_iff)
  from a off show "evaluate7 h1 = Inr (4, [3])"
    by (intro wheel_hand_score[of h1 w x y]) simp_all
  from a obtain b where b: "evaluate7 h2 = Inr b" "(4, [4]) \<le> b"
    using six_high_hand_score[of h2] by blast
  have "((4, [3]) :: score) < (4, [4])" by (simp add: less_prod_def)
  from this b(2) have "(4, [3]) < b" by (rule less_le_trans)
  with b(1) show "\<exists>s2. evaluate7 h2 = Inr s2 \<and> (4, [3]) < s2" by blast
qed

theorem wheel_is_five_high_below_six_high_witness:
  "length [12, 16, 28, 40, 0 :: int] = 5 \<and> set (map rank [12, 16, 28, 40, 0]) = {12, 3, 2, 1, 0}
   \<and> evaluate5 [12, 16, 28, 40, 0] = Inr (4, [3])
   \<and> rank 24 \<notin> {12, 3, 2, 1, 0, 4} \<and> rank 36 \<notin> {12, 3, 2, 1, 0, 4} \<and> rank 24 \<noteq> rank 36
   \<and> list_all (\<lambda>d. length (filter (\<lambda>e. suit e = suit d) [12, 16, 28, 40, 0, 24, 36]) < 5)
         [12, 16, 28, 40, 0, 24, 36]
   \<and> {4, 3, 2, 1, 0} \<subseteq> rank ` set [4, 16, 28, 40, 0, 24, 36]
   \<and> evaluate7 [12, 16, 28, 40, 0, 24, 36] = Inr (4, [3])
   \<and> (\<exists>s2. evaluate7 [4, 16, 28, 40, 0, 24, 36] = Inr s2 \<and> (4, [3]) < s2)"
proof -
  have h1: "length [12, 16, 28, 40, 0 :: int] = 5 \<and> set (map rank [12, 16, 28, 40, 0]) = {12, 3, 2, 1, 0}"
    by (simp add: rank_def)
  have h2: "rank 24 \<notin> {12, 3, 2, 1, 0, 4} \<and> rank 36 \<notin> {12, 3, 2, 1, 0, 4} \<and> rank 24 \<noteq> rank 36"
    by (simp add: rank_def)
  have h3: "list_all (\<lambda>d. length (filter (\<lambda>e. suit e = suit d) [12, 16, 28, 40, 0, 24, 36]) < 5)
         [12, 16, 28, 40, 0, 24, 36]"
    by (simp add: suit_def)
  have h4: "{4, 3, 2, 1, 0} \<subseteq> rank ` set [4, 16, 28, 40, 0, 24, 36]"
    by (simp add: rank_def)
  have h5: "card (set (map suit [12, 16, 28, 40, 0])) \<noteq> 1"
    by (simp add: suit_def card_insert_if)
  have h6: "length [12, 16, 28, 40, 0, 24, 36 :: int] = 7 \<and> length [4, 16, 28, 40, 0, 24, 36 :: int] = 7
      \<and> mset [12, 16, 28, 40, 0, 24, 36 :: int] = mset ([12, 16, 28, 40, 0] @ [24, 36])"
    by simp
  note main = wheel_is_five_high_below_six_high
  from main[THEN conjunct1, rule_format, OF h1] h5
  have c1: "evaluate5 [12, 16, 28, 40, 0] = Inr (4, [3])" by simp
  from main[THEN conjunct2, rule_format,
      of "[12, 16, 28, 40, 0, 24, 36]" "[12, 16, 28, 40, 0]" 24 36 "[4, 16, 28, 40, 0, 24, 36]"]
    h1 h2 h3 h4 h6
  have c2: "evaluate7 [12, 16, 28, 40, 0, 24, 36] = Inr (4, [3])
        \<and> (\<exists>s2. evaluate7 [4, 16, 28, 40, 0, 24, 36] = Inr s2 \<and> (4, [3]) < s2)"
    by blast
  from h1 h2 h3 h4 c1 c2 show ?thesis by (elim conjE) (intro conjI; assumption)
qed

text \<open>
  Claim C10. The 7-card score is invariant under reordering of its input: any two sequences
  that are permutations of each other (equal as multisets) get the same result from
  \<open>evaluate7\<close>, whether a score or the assertion failure for a length other than 7.
\<close>

theorem evaluate7_permutation_invariant:
  "mset xs = mset ys \<Longrightarrow> evaluate7 xs = evaluate7 ys"
  by (rule evaluate7_mset)

theorem evaluate7_permutation_invariant_witness:
  "mset [12, 16, 28, 40, 0, 24, 36 :: int] = mset [36, 24, 0, 40, 28, 16, 12]
   \<and> evaluate7 [12, 16, 28, 40, 0, 24, 36] = evaluate7 [36, 24, 0, 40, 28, 16, 12]"
proof -
  have "[36, 24, 0, 40, 28, 16, 12 :: int] = rev [12, 16, 28, 40, 0, 24, 36]" by simp
  then have p: "mset [12, 16, 28, 40, 0, 24, 36 :: int] = mset [36, 24, 0, 40, 28, 16, 12]"
    by (simp only: mset_rev)
  from evaluate7_permutation_invariant[OF p] p show ?thesis by (intro conjI)
qed

section \<open>Claims about range expansion\<close>

text \<open>
  Claim C9. Range expansion produces the combo counts of the grammar for plain, pair-plus and
  dash tokens: \<open>TT\<close> has 6 combos, \<open>TT+\<close> 30, \<open>AKs\<close> 4, \<open>AKo\<close> 12, \<open>AK\<close> 16 and
  \<open>A5s-A2s\<close> 16.
\<close>

theorem parse_range_counts:
  "map_sum id card (parse_range ''TT'') = Inr 6
   \<and> map_sum id card (parse_range ''TT+'') = Inr 30
   \<and> map_sum id card (parse_range ''AKs'') = Inr 4
   \<and> map_sum id card (parse_range ''AKo'') = Inr 12
   \<and> map_sum id card (parse_range ''AK'') = Inr 16
   \<and> map_sum id card (parse_range ''A5s-A2s'') = Inr 16"
proof (intro conjI)
  show "map_sum id card (parse_range ''TT'') = Inr 6" by code_simp
  show "map_sum id card (parse_range ''TT+'') = Inr 30" by code_simp
  show "map_sum id card (parse_range ''AKs'') = Inr 4" by code_simp
  show "map_sum id card (parse_range ''AKo'') = Inr 12" by code_simp
  show "map_sum id card (parse_range ''AK'') = Inr 16" by code_simp
  show "map_sum id card (parse_range ''A5s-A2s'') = Inr 16" by code_simp
qed

text \<open>
  Claim C3 says that \<open>+\<close> on a non-pair token keeps the higher rank and sweeps the lower rank
  up to just below it, so that \<open>AQ+\<close> is the union of AQ and AK (32 combos) and \<open>AQs+\<close> has 8
  combos. The loop of \<open>_expand_simple_token\<close> instead keeps the lower rank and sweeps the
  higher rank from its written value up to the ace. For \<open>AQ+\<close> the higher rank is already
  the ace, so the result is the 16 combos of AQ alone and holds no AK combo; \<open>AQs+\<close> is the
  4 combos of AQs. The module's own comment (\<open>"AQ+" -> AQ, AK\<close>) and its test
  (\<open>_count("AQ+") == 16 + 16\<close>, \<open>_count("AQs+") == 4 + 4\<close>) state what the claim states.
\<close>

theorem plus_suffix_AQ_is_AQ_only:
  "parse_range ''AQ+'' = Inr (all_both_combos 12 10)
   \<and> card (all_both_combos 12 10) = 16
   \<and> all_both_combos 12 10 \<inter> all_both_combos 12 11 = {}
   \<and> parse_range ''AQ'' = Inr (all_both_combos 12 10)
   \<and> parse_range ''AK'' = Inr (all_both_combos 12 11)
   \<and> parse_range ''AQs+'' = Inr (all_suited_combos 12 10)
   \<and> card (all_suited_combos 12 10) = 4"
proof (intro conjI)
  show "parse_range ''AQ+'' = Inr (all_both_combos 12 10)" by code_simp
  show "card (all_both_combos 12 10) = 16" by code_simp
  show "all_both_combos 12 10 \<inter> all_both_combos 12 11 = {}" by code_simp
  show "parse_range ''AQ'' = Inr (all_both_combos 12 10)" by code_simp
  show "parse_range ''AK'' = Inr (all_both_combos 12 11)" by code_simp
  show "parse_range ''AQs+'' = Inr (all_suited_combos 12 10)" by code_simp
  show "card (all_suited_combos 12 10) = 4" by code_simp
qed

end
